theory Spec2Isabelle
  imports Main
begin

section \<open>The render scheduler of ngx-rxjs-render-scheduler\<close>

text \<open>
  The development embeds \<^verbatim>\<open>src/lib/afterNextRenderScheduler.ts\<close>: the class
  \<^verbatim>\<open>AfterNextRenderScheduler\<close> (constructor and \<^verbatim>\<open>schedule\<close>) and the class
  \<^verbatim>\<open>AfterNextRenderAction\<close> (\<^verbatim>\<open>schedule\<close>, \<^verbatim>\<open>execute\<close>, \<^verbatim>\<open>unsubscribe\<close>).

  Objects live in a store and are named by references, because the closures the action
  hands to \<^verbatim>\<open>setTimeout\<close> and \<^verbatim>\<open>afterNextRender\<close> capture \<^verbatim>\<open>this\<close>. Every
  effect of the code is a field of the world: the pending timers, the callbacks registered
  for the next render, and the trace of the calls of \<^verbatim>\<open>work\<close>.
\<close>

subsection \<open>Data\<close>

type_synonym ref = nat
type_synonym timer_id = nat

text \<open>
  The two closures of the source, by what they call:
  \<^verbatim>\<open>() => this.schedule(state)\<close> and \<^verbatim>\<open>() => this.execute(state)\<close>.
\<close>

datatype 's callback = Call_schedule ref 's | Call_execute ref 's

fun cb_target :: "'s callback \<Rightarrow> ref" where
  "cb_target (Call_schedule a s) = a"
| "cb_target (Call_execute a s) = a"

text \<open>
  The work function is called as \<^verbatim>\<open>this.work(state)\<close>, with \<^verbatim>\<open>this\<close> bound to
  the action; its declared type is
  \<^verbatim>\<open>(this: SchedulerAction<T>, state?: T) => void\<close>, and a \<^verbatim>\<open>SchedulerAction\<close> is
  a \<^verbatim>\<open>Subscription\<close> with the method \<^verbatim>\<open>schedule\<close>. So the work can cancel or
  reschedule its own action, as the work that \<^verbatim>\<open>observeOn\<close> of rxjs passes does
  (it ends with \<^verbatim>\<open>this.unsubscribe()\<close>). What the work does to its action is the list
  of the calls it makes on \<^verbatim>\<open>this\<close>, in order: \<^verbatim>\<open>this.unsubscribe()\<close> and
  \<^verbatim>\<open>this.schedule(state, delay)\<close>, the two members of a \<^verbatim>\<open>SchedulerAction\<close> that
  change the action. Teardowns added with \<^verbatim>\<open>this.add\<close> are left out.
\<close>

datatype 's self_call = This_unsubscribe | This_schedule 's "int option"

text \<open>
  An \<^verbatim>\<open>AfterNextRenderAction\<close>: its two constructor parameters, the field
  \<^verbatim>\<open>closed\<close> it inherits from \<^verbatim>\<open>Subscription\<close> and its own \<^verbatim>\<open>timeoutId\<close>
  (\<^verbatim>\<open>null\<close> is \<open>None\<close>). The work function is a parameter of the model: for a state
  it gives the calls it makes on its action and its outcome, \<open>None\<close> when it returns
  normally and \<open>Some err\<close> when it throws \<open>err\<close>.
\<close>

record ('s, 'e, 'i) action =
  injector :: "'i option"
  work :: "'s \<Rightarrow> 's self_call list \<times> 'e option"
  closed :: bool
  timeoutId :: "timer_id option"

text \<open>
  The world: the object store with its allocation counter, the timers that
  \<^verbatim>\<open>setTimeout\<close> armed and that have neither fired nor been cleared (identifier, delay
  in milliseconds, callback), the counter of timer identifiers, the callbacks registered
  with \<^verbatim>\<open>afterNextRender\<close> in registration order (each with the injector of its options
  object), and the trace: one entry, action and state, for every call of \<^verbatim>\<open>work\<close>.
\<close>

record ('s, 'e, 'i) world =
  actions :: "ref \<Rightarrow> ('s, 'e, 'i) action option"
  next_action :: ref
  timers :: "(timer_id \<times> int \<times> 's callback) list"
  next_timer :: timer_id
  renders :: "('s callback \<times> 'i option) list"
  trace :: "(ref \<times> 's) list"

definition initial_world :: "('s, 'e, 'i) world" where
  "initial_world =
     \<lparr>actions = (\<lambda>r. None), next_action = 0, timers = [], next_timer = 0,
      renders = [], trace = []\<rparr>"

subsection \<open>The platform: timers, the render hook, the base subscription\<close>

text \<open>
  \<^verbatim>\<open>setTimeout(cb, delay)\<close> arms a timer under a fresh identifier and returns the
  identifier; \<^verbatim>\<open>clearTimeout(id)\<close> disarms the timer of that identifier, and does
  nothing when there is none.
\<close>

definition setTimeout ::
  "'s callback \<Rightarrow> int \<Rightarrow> ('s, 'e, 'i) world \<Rightarrow> timer_id \<times> ('s, 'e, 'i) world" where
  "setTimeout cb delay w =
     (next_timer w,
      w\<lparr>timers := timers w @ [(next_timer w, delay, cb)], next_timer := Suc (next_timer w)\<rparr>)"

definition clearTimeout :: "timer_id \<Rightarrow> ('s, 'e, 'i) world \<Rightarrow> ('s, 'e, 'i) world" where
  "clearTimeout t w = w\<lparr>timers := filter (\<lambda>e. fst e \<noteq> t) (timers w)\<rparr>"

text \<open>
  \<^verbatim>\<open>afterNextRender(cb, { injector })\<close> registers the callback behind the ones
  registered before it (the interface \<^verbatim>\<open>registerOnce(callback, context)\<close> of the
  specification).
\<close>

definition afterNextRender ::
  "'s callback \<Rightarrow> 'i option \<Rightarrow> ('s, 'e, 'i) world \<Rightarrow> ('s, 'e, 'i) world" where
  "afterNextRender cb ctx w = w\<lparr>renders := renders w @ [(cb, ctx)]\<rparr>"

text \<open>
  \<^verbatim>\<open>super.unsubscribe()\<close>, the method of the \<^verbatim>\<open>Subscription\<close> of rxjs, on a
  subscription that holds no teardown: it sets \<^verbatim>\<open>closed\<close>.
\<close>

definition Subscription_unsubscribe :: "('s, 'e, 'i) action \<Rightarrow> ('s, 'e, 'i) action" where
  "Subscription_unsubscribe self = self\<lparr>closed := True\<rparr>"

subsection \<open>AfterNextRenderAction\<close>

text \<open>
  Each method takes the reference \<open>this\<close> and reads the object in the store. A
  reference that names no object has no method to call: the model leaves the world as it
  is there. A delay is a whole number of milliseconds, of either sign; the source only
  compares it with \<^verbatim>\<open>0\<close> and passes it to \<^verbatim>\<open>setTimeout\<close>. An absent
  \<^verbatim>\<open>delay\<close> argument is \<open>None\<close> and takes the default \<^verbatim>\<open>0\<close> of the
  signature.
\<close>

definition action_schedule ::
  "ref \<Rightarrow> 's \<Rightarrow> int option \<Rightarrow> ('s, 'e, 'i) world \<Rightarrow> ref \<times> ('s, 'e, 'i) world" where
  "action_schedule this state delay_arg w =
     (case actions w this of
        None \<Rightarrow> (this, w)
      | Some self \<Rightarrow>
          let delay = (case delay_arg of None \<Rightarrow> 0 | Some d \<Rightarrow> d) in
          if closed self then (this, w)
          else if delay > 0 then
            (let (tid, w1) = setTimeout (Call_schedule this state) delay w
             in (this, w1\<lparr>actions := (actions w1)(this \<mapsto> self\<lparr>timeoutId := Some tid\<rparr>)\<rparr>))
          else (this, afterNextRender (Call_execute this state) (injector self) w))"

definition action_unsubscribe :: "ref \<Rightarrow> ('s, 'e, 'i) world \<Rightarrow> ('s, 'e, 'i) world" where
  "action_unsubscribe this w =
     (case actions w this of
        None \<Rightarrow> w
      | Some self \<Rightarrow>
          if closed self then w
          else
            (let (self1, w1) =
               (case timeoutId self of
                  None \<Rightarrow> (self, w)
                | Some tid \<Rightarrow> (self\<lparr>timeoutId := None\<rparr>, clearTimeout tid w))
             in w1\<lparr>actions := (actions w1)(this \<mapsto> Subscription_unsubscribe self1)\<rparr>))"

text \<open>
  The calls the work makes on \<^verbatim>\<open>this\<close>, one after the other.
\<close>

fun self_calls ::
  "ref \<Rightarrow> 's self_call list \<Rightarrow> ('s, 'e, 'i) world \<Rightarrow> ('s, 'e, 'i) world" where
  "self_calls this [] w = w"
| "self_calls this (This_unsubscribe # calls) w =
     self_calls this calls (action_unsubscribe this w)"
| "self_calls this (This_schedule s d # calls) w =
     self_calls this calls (snd (action_schedule this s d w))"

text \<open>
  \<^verbatim>\<open>execute\<close> returns \<open>Inl err\<close> when it throws \<open>err\<close> and \<open>Inr ()\<close> when it
  returns. The call \<^verbatim>\<open>this.work(state)\<close> is recorded in the trace, then the calls
  the work makes on its action take effect, then its outcome is inspected.
\<close>

definition action_execute ::
  "ref \<Rightarrow> 's \<Rightarrow> ('s, 'e, 'i) world \<Rightarrow> ('e + unit) \<times> ('s, 'e, 'i) world" where
  "action_execute this state w =
     (case actions w this of
        None \<Rightarrow> (Inr (), w)
      | Some self \<Rightarrow>
          if closed self then (Inr (), w)
          else
            (let (calls, outcome) = work self state;
                 w1 = self_calls this calls (w\<lparr>trace := trace w @ [(this, state)]\<rparr>)
             in case outcome of
                  None \<Rightarrow> (Inr (), w1)
                | Some err \<Rightarrow> (Inl err, action_unsubscribe this w1)))"

subsection \<open>AfterNextRenderScheduler\<close>

text \<open>
  The clock of a scheduler is \<^verbatim>\<open>Date.now\<close> or a function the caller supplied.
\<close>

datatype 'c now_fn = Date_now | Supplied 'c

record ('c, 'i) options =
  options_injector :: "'i option"
  options_now :: "'c option"

text \<open>
  The constructor's argument: absent, an \<^verbatim>\<open>Injector\<close> (an object with a member
  \<^verbatim>\<open>get\<close>, which is what \<^verbatim>\<open>'get' in options\<close> tests), or an options object.
\<close>

datatype ('c, 'i) ctor_arg =
  No_argument | Injector_argument 'i | Options_argument "('c, 'i) options"

record ('c, 'i) scheduler =
  now :: "'c now_fn"
  scheduler_injector :: "'i option"

datatype ctor_error = No_injection_context

text \<open>
  Modelled from the spec: \<^verbatim>\<open>inject(Injector)\<close> of Angular, the collaborator
  \<^verbatim>\<open>resolveAmbientContext\<close>. It returns the injector of the active injection context
  and fails when no injection context is active. The ambient context is \<open>Some i\<close> when
  one is active.
\<close>

definition inject :: "'i option \<Rightarrow> ctor_error + 'i" where
  "inject ambient = (case ambient of None \<Rightarrow> Inl No_injection_context | Some i \<Rightarrow> Inr i)"

text \<open>
  The constructor. \<^verbatim>\<open>a ?? b\<close> evaluates \<^verbatim>\<open>b\<close> only when \<^verbatim>\<open>a\<close> is
  undefined, so \<^verbatim>\<open>inject\<close> is called only when no injector was supplied.
\<close>

definition optional_now :: "('c, 'i) ctor_arg \<Rightarrow> 'c option" where
  "optional_now arg = (case arg of Options_argument opts \<Rightarrow> options_now opts | _ \<Rightarrow> None)"

definition optional_injector :: "('c, 'i) ctor_arg \<Rightarrow> 'i option" where
  "optional_injector arg =
     (case arg of Options_argument opts \<Rightarrow> options_injector opts | _ \<Rightarrow> None)"

definition new_AfterNextRenderScheduler ::
  "'i option \<Rightarrow> ('c, 'i) ctor_arg \<Rightarrow> ctor_error + ('c, 'i) scheduler" where
  "new_AfterNextRenderScheduler ambient arg =
     (case arg of
        Injector_argument i \<Rightarrow> Inr \<lparr>now = Date_now, scheduler_injector = Some i\<rparr>
      | _ \<Rightarrow>
          (let n = (case optional_now arg of Some f \<Rightarrow> Supplied f | None \<Rightarrow> Date_now)
           in case optional_injector arg of
                Some i \<Rightarrow> Inr \<lparr>now = n, scheduler_injector = Some i\<rparr>
              | None \<Rightarrow>
                  (case inject ambient of
                     Inl err \<Rightarrow> Inl err
                   | Inr i \<Rightarrow> Inr \<lparr>now = n, scheduler_injector = Some i\<rparr>)))"

text \<open>\<^verbatim>\<open>new AfterNextRenderAction(injector, work)\<close> allocates a fresh object.\<close>

definition new_AfterNextRenderAction ::
  "'i option \<Rightarrow> ('s \<Rightarrow> 's self_call list \<times> 'e option) \<Rightarrow> ('s, 'e, 'i) world
     \<Rightarrow> ref \<times> ('s, 'e, 'i) world" where
  "new_AfterNextRenderAction ctx wk w =
     (next_action w,
      w\<lparr>actions := (actions w)(next_action w \<mapsto>
           \<lparr>injector = ctx, work = wk, closed = False, timeoutId = None\<rparr>),
        next_action := Suc (next_action w)\<rparr>)"

definition scheduler_schedule ::
  "('c, 'i) scheduler \<Rightarrow> ('s \<Rightarrow> 's self_call list \<times> 'e option) \<Rightarrow> int option \<Rightarrow> 's
     \<Rightarrow> ('s, 'e, 'i) world \<Rightarrow> ref \<times> ('s, 'e, 'i) world" where
  "scheduler_schedule sch wk delay_arg state w =
     (let delay = (case delay_arg of None \<Rightarrow> 0 | Some d \<Rightarrow> d);
          (a, w1) = new_AfterNextRenderAction (scheduler_injector sch) wk w
      in action_schedule a state (Some delay) w1)"

subsection \<open>The drivers: a timer fires, a render happens\<close>

definition run_callback ::
  "'s callback \<Rightarrow> ('s, 'e, 'i) world \<Rightarrow> ('e + unit) \<times> ('s, 'e, 'i) world" where
  "run_callback cb w =
     (case cb of
        Call_schedule a s \<Rightarrow> (Inr (), snd (action_schedule a s None w))
      | Call_execute a s \<Rightarrow> action_execute a s w)"

text \<open>
  A timer fires once: it leaves the pending timers, then its callback runs. An identifier
  with no pending timer fires nothing.
\<close>

definition fire_timer ::
  "timer_id \<Rightarrow> ('s, 'e, 'i) world \<Rightarrow> ('e + unit) \<times> ('s, 'e, 'i) world" where
  "fire_timer t w =
     (case find (\<lambda>e. fst e = t) (timers w) of
        None \<Rightarrow> (Inr (), w)
      | Some e \<Rightarrow> run_callback (snd (snd e)) (clearTimeout t w))"

text \<open>
  The render hook is one-shot and first in, first out: the oldest registration leaves the
  queue and its callback runs.
\<close>

definition fire_render :: "('s, 'e, 'i) world \<Rightarrow> ('e + unit) \<times> ('s, 'e, 'i) world" where
  "fire_render w =
     (case renders w of
        [] \<Rightarrow> (Inr (), w)
      | r # rest \<Rightarrow> run_callback (fst r) (w\<lparr>renders := rest\<rparr>))"

text \<open>
  One render: every callback registered so far runs once, in registration order. An error
  that a callback throws goes to the provider (collected here), and the later callbacks
  still run.
\<close>

fun run_callbacks ::
  "'s callback list \<Rightarrow> ('s, 'e, 'i) world \<Rightarrow> 'e list \<times> ('s, 'e, 'i) world" where
  "run_callbacks [] w = ([], w)"
| "run_callbacks (cb # cbs) w =
     (case run_callback cb w of
        (Inl err, w1) \<Rightarrow> (case run_callbacks cbs w1 of (errs, w2) \<Rightarrow> (err # errs, w2))
      | (Inr u, w1) \<Rightarrow> run_callbacks cbs w1)"

definition render :: "('s, 'e, 'i) world \<Rightarrow> 'e list \<times> ('s, 'e, 'i) world" where
  "render w = run_callbacks (map fst (renders w)) (w\<lparr>renders := []\<rparr>)"

text \<open>
  What can happen to a world. The driver's events: a caller schedules work on a scheduler,
  a pending timer fires, the oldest render callback fires, a caller unsubscribes a handle.
  The direct calls: somebody who holds the action calls its \<^verbatim>\<open>execute\<close> or its
  \<^verbatim>\<open>schedule\<close> again.
\<close>

datatype ('c, 's, 'e, 'i) event =
  Schedule "('c, 'i) scheduler" "'s \<Rightarrow> 's self_call list \<times> 'e option" "int option" 's
| Timer timer_id
| Render
| Unsubscribe ref
| Execute ref 's
| Reschedule ref 's "int option"

fun step :: "('c, 's, 'e, 'i) event \<Rightarrow> ('s, 'e, 'i) world \<Rightarrow> ('s, 'e, 'i) world" where
  "step (Schedule sch wk d s) w = snd (scheduler_schedule sch wk d s w)"
| "step (Timer t) w = snd (fire_timer t w)"
| "step Render w = snd (fire_render w)"
| "step (Unsubscribe a) w = action_unsubscribe a w"
| "step (Execute a s) w = snd (action_execute a s w)"
| "step (Reschedule a s d) w = snd (action_schedule a s d w)"

fun run :: "('c, 's, 'e, 'i) event list \<Rightarrow> ('s, 'e, 'i) world \<Rightarrow> ('s, 'e, 'i) world" where
  "run [] w = w"
| "run (ev # evs) w = run evs (step ev w)"

text \<open>
  A work function that never calls \<^verbatim>\<open>this.schedule\<close>: whatever the state, the calls
  it makes on its action are calls of \<^verbatim>\<open>this.unsubscribe\<close>.
\<close>

definition never_reschedules :: "('s \<Rightarrow> 's self_call list \<times> 'e option) \<Rightarrow> bool" where
  "never_reschedules wk = (\<forall>s. list_all (\<lambda>c. c = This_unsubscribe) (fst (wk s)))"


subsection \<open>Observations\<close>

text \<open>How often the work of an action was called, and how many callbacks still target it.\<close>

definition invocations :: "ref \<Rightarrow> ('s, 'e, 'i) world \<Rightarrow> nat" where
  "invocations a w = length (filter (\<lambda>e. fst e = a) (trace w))"

definition pending :: "ref \<Rightarrow> ('s, 'e, 'i) world \<Rightarrow> nat" where
  "pending a w =
     length (filter (\<lambda>e. cb_target (snd (snd e)) = a) (timers w)) +
     length (filter (\<lambda>e. cb_target (fst e) = a) (renders w))"

definition is_closed :: "ref \<Rightarrow> ('s, 'e, 'i) world \<Rightarrow> bool" where
  "is_closed a w = (case actions w a of None \<Rightarrow> False | Some self \<Rightarrow> closed self)"

text \<open>
  The callbacks that still target an action plus the calls of its work. Under the driver's
  events this number never exceeds one, and it is zero for a reference not yet allocated.
\<close>

definition count :: "ref \<Rightarrow> ('s, 'e, 'i) world \<Rightarrow> nat" where
  "count a w = pending a w + invocations a w"


text \<open>The work function of every action in the store, and a store whose work functions never reschedule.\<close>

definition works ::
  "('s, 'e, 'i) world \<Rightarrow> ref \<Rightarrow> ('s \<Rightarrow> 's self_call list \<times> 'e option) option" where
  "works w a = map_option work (actions w a)"


subsection \<open>Concrete inputs\<close>

text \<open>
  A scheduler built on an injector, a work function that returns, one that throws, one
  that cancels its action and returns (the shape of the work of \<^verbatim>\<open>observeOn\<close>), and
  the world after one call of \<^verbatim>\<open>scheduler.schedule(work, d, 7)\<close> in the initial world.
\<close>

definition example_scheduler :: "(unit, nat) scheduler" where
  "example_scheduler = \<lparr>now = Date_now, scheduler_injector = Some 1\<rparr>"

definition work_returns :: "nat \<Rightarrow> nat self_call list \<times> string option" where
  "work_returns s = ([], None)"

definition work_throws :: "nat \<Rightarrow> nat self_call list \<times> string option" where
  "work_throws s = ([], Some ''Test Error'')"

definition work_unsubscribes :: "nat \<Rightarrow> nat self_call list \<times> string option" where
  "work_unsubscribes s = ([This_unsubscribe], None)"

definition example_world ::
  "(nat \<Rightarrow> nat self_call list \<times> string option) \<Rightarrow> int \<Rightarrow> (nat, string, nat) world" where
  "example_world wk d = snd (scheduler_schedule example_scheduler wk (Some d) 7 initial_world)"

section \<open>Lemmas\<close>

text \<open>The equations that evaluate the model on a concrete input.\<close>

lemmas model_defs =
  example_scheduler_def work_returns_def work_throws_def work_unsubscribes_def
  example_world_def initial_world_def never_reschedules_def
  scheduler_schedule_def new_AfterNextRenderAction_def action_schedule_def action_execute_def
  action_unsubscribe_def Subscription_unsubscribe_def setTimeout_def clearTimeout_def
  afterNextRender_def run_callback_def fire_timer_def fire_render_def render_def
  invocations_def pending_def is_closed_def Let_def

lemma length_filter_conj_le:
  "length (filter (\<lambda>x. Q x \<and> P x) xs) \<le> length (filter P xs)"
  by (induction xs) auto

lemma pending_clearTimeout_le: "pending a (clearTimeout t w) \<le> pending a w"
  by (simp add: pending_def clearTimeout_def length_filter_conj_le)

subsection \<open>What each method changes\<close>

text \<open>\<^verbatim>\<open>schedule\<close>:\<close>

lemma schedule_trace [simp]: "trace (snd (action_schedule b s d w)) = trace w"
  by (auto simp: action_schedule_def setTimeout_def afterNextRender_def Let_def split: option.splits)

lemma schedule_next_action [simp]: "next_action (snd (action_schedule b s d w)) = next_action w"
  by (auto simp: action_schedule_def setTimeout_def afterNextRender_def Let_def split: option.splits)

lemma schedule_pending:
  "pending a (snd (action_schedule b s d w)) \<le> pending a w + (if a = b then 1 else 0)"
  by (auto simp: action_schedule_def setTimeout_def afterNextRender_def Let_def pending_def split: option.splits)

lemma schedule_is_closed: "is_closed a w \<Longrightarrow> is_closed a (snd (action_schedule b s d w))"
  by (auto simp: action_schedule_def setTimeout_def afterNextRender_def Let_def is_closed_def split: option.splits)

lemma schedule_closed_noop: "is_closed b w \<Longrightarrow> action_schedule b s d w = (b, w)"
  by (auto simp: action_schedule_def is_closed_def Let_def split: option.splits)

text \<open>\<^verbatim>\<open>unsubscribe\<close>:\<close>

lemma unsubscribe_trace [simp]: "trace (action_unsubscribe b w) = trace w"
  by (auto simp: action_unsubscribe_def clearTimeout_def split: option.splits)

lemma unsubscribe_next_action [simp]: "next_action (action_unsubscribe b w) = next_action w"
  by (auto simp: action_unsubscribe_def clearTimeout_def split: option.splits)

lemma unsubscribe_pending: "pending a (action_unsubscribe b w) \<le> pending a w"
  by (auto simp: action_unsubscribe_def clearTimeout_def pending_def length_filter_conj_le split: option.splits)

lemma unsubscribe_is_closed: "is_closed a w \<Longrightarrow> is_closed a (action_unsubscribe b w)"
  by (auto simp: action_unsubscribe_def clearTimeout_def is_closed_def Subscription_unsubscribe_def split: option.splits)

lemma unsubscribe_closes: "actions w a = Some self \<Longrightarrow> is_closed a (action_unsubscribe a w)"
  by (auto simp: action_unsubscribe_def clearTimeout_def is_closed_def Subscription_unsubscribe_def split: option.splits)

lemma unsubscribe_twice: "action_unsubscribe a (action_unsubscribe a w) = action_unsubscribe a w"
  by (auto simp: action_unsubscribe_def Subscription_unsubscribe_def clearTimeout_def
      split: option.splits)

text \<open>The calls a work function makes on its action:\<close>

lemma self_calls_trace [simp]: "trace (self_calls b cs w) = trace w"
proof (induction cs arbitrary: w)
  case Nil
  then show ?case by simp
next
  case (Cons c cs)
  then show ?case by (cases c) simp_all
qed

lemma self_calls_next_action [simp]: "next_action (self_calls b cs w) = next_action w"
proof (induction cs arbitrary: w)
  case Nil
  then show ?case by simp
next
  case (Cons c cs)
  then show ?case by (cases c) simp_all
qed

lemma self_calls_is_closed: "is_closed a w \<Longrightarrow> is_closed a (self_calls b cs w)"
proof (induction cs arbitrary: w)
  case Nil
  then show ?case by simp
next
  case (Cons c cs)
  then show ?case by (cases c) (simp_all add: unsubscribe_is_closed schedule_is_closed)
qed

lemma self_calls_pending_other:
  "a \<noteq> b \<Longrightarrow> pending a (self_calls b cs w) \<le> pending a w"
proof (induction cs arbitrary: w)
  case Nil
  then show ?case by simp
next
  case (Cons c cs)
  show ?case
  proof (cases c)
    case This_unsubscribe
    then show ?thesis
      using Cons.IH [OF Cons.prems, of "action_unsubscribe b w"] unsubscribe_pending [of a b w]
      by simp
  next
    case (This_schedule s d)
    then show ?thesis
      using Cons.IH [OF Cons.prems, of "snd (action_schedule b s d w)"]
        schedule_pending [of a b s d w] Cons.prems
      by simp
  qed
qed


lemma works_frame [simp]:
  "works (w\<lparr>trace := tr\<rparr>) = works w"
  "works (w\<lparr>timers := ts\<rparr>) = works w"
  "works (w\<lparr>renders := rs\<rparr>) = works w"
  by (rule ext, simp add: works_def)+

lemma schedule_works [simp]: "works (snd (action_schedule b s d w)) = works w"
  by (rule ext)
     (auto simp: works_def action_schedule_def setTimeout_def afterNextRender_def Let_def
       split: option.splits)

lemma unsubscribe_works [simp]: "works (action_unsubscribe b w) = works w"
  by (rule ext)
     (auto simp: works_def action_unsubscribe_def clearTimeout_def Subscription_unsubscribe_def
       split: option.splits)

lemma self_calls_works [simp]: "works (self_calls b cs w) = works w"
proof (induction cs arbitrary: w)
  case Nil
  then show ?case by simp
next
  case (Cons c cs)
  then show ?case by (cases c) simp_all
qed

text \<open>
  The action after the calls its work made on it: the same injector and work, closed
  exactly when it was closed before or the work called \<^verbatim>\<open>this.unsubscribe()\<close>, and with
  \<^verbatim>\<open>timeoutId\<close> reset once closed.
\<close>

lemma schedule_action:
  assumes "actions w a = Some self"
  shows "\<exists>self'. actions (snd (action_schedule a s d w)) a = Some self'
     \<and> injector self' = injector self \<and> work self' = work self
     \<and> closed self' = closed self
     \<and> (closed self \<longrightarrow> timeoutId self' = timeoutId self)"
  using assms
  by (auto simp: action_schedule_def setTimeout_def afterNextRender_def Let_def)

lemma unsubscribe_action:
  assumes "actions w a = Some self"
  shows "\<exists>self'. actions (action_unsubscribe a w) a = Some self'
     \<and> injector self' = injector self \<and> work self' = work self
     \<and> closed self'
     \<and> (if closed self then timeoutId self' = timeoutId self else timeoutId self' = None)"
  using assms
  by (auto simp: action_unsubscribe_def Subscription_unsubscribe_def clearTimeout_def
      split: option.splits)

lemma self_calls_action:
  "actions w a = Some self \<Longrightarrow>
   \<exists>self'. actions (self_calls a cs w) a = Some self'
     \<and> injector self' = injector self \<and> work self' = work self
     \<and> closed self' = (closed self \<or> This_unsubscribe \<in> set cs)
     \<and> ((closed self \<longrightarrow> timeoutId self = None) \<longrightarrow> (closed self' \<longrightarrow> timeoutId self' = None))"
proof (induction cs arbitrary: w self)
  case Nil
  then show ?case by simp
next
  case (Cons c cs)
  show ?case
  proof (cases c)
    case This_unsubscribe
    from unsubscribe_action [OF Cons.prems]
    obtain m where m: "actions (action_unsubscribe a w) a = Some m"
      "injector m = injector self" "work m = work self" "closed m"
      "if closed self then timeoutId m = timeoutId self else timeoutId m = None"
      by blast
    from Cons.IH [OF m(1)]
    obtain self' where "actions (self_calls a cs (action_unsubscribe a w)) a = Some self'"
      "injector self' = injector m" "work self' = work m"
      "closed self' = (closed m \<or> This_unsubscribe \<in> set cs)"
      "(closed m \<longrightarrow> timeoutId m = None) \<longrightarrow> (closed self' \<longrightarrow> timeoutId self' = None)"
      by blast
    with m This_unsubscribe show ?thesis by (auto split: if_splits)
  next
    case (This_schedule s d)
    from schedule_action [OF Cons.prems, of s d]
    obtain m where m: "actions (snd (action_schedule a s d w)) a = Some m"
      "injector m = injector self" "work m = work self" "closed m = closed self"
      "closed self \<longrightarrow> timeoutId m = timeoutId self"
      by blast
    from Cons.IH [OF m(1)]
    obtain self' where "actions (self_calls a cs (snd (action_schedule a s d w))) a = Some self'"
      "injector self' = injector m" "work self' = work m"
      "closed self' = (closed m \<or> This_unsubscribe \<in> set cs)"
      "(closed m \<longrightarrow> timeoutId m = None) \<longrightarrow> (closed self' \<longrightarrow> timeoutId self' = None)"
      by blast
    with m This_schedule show ?thesis by auto
  qed
qed

text \<open>\<^verbatim>\<open>execute\<close>, on an action that takes the call and on one that does not:\<close>

lemma execute_live:
  assumes "actions w b = Some self" and "\<not> closed self" and "work self s = (cs, out)"
  shows "action_execute b s w =
     (case out of
        None \<Rightarrow> (Inr (), self_calls b cs (w\<lparr>trace := trace w @ [(b, s)]\<rparr>))
      | Some err \<Rightarrow>
          (Inl err, action_unsubscribe b (self_calls b cs (w\<lparr>trace := trace w @ [(b, s)]\<rparr>))))"
  using assms by (simp add: action_execute_def Let_def)

lemma execute_closed_noop: "is_closed b w \<Longrightarrow> action_execute b s w = (Inr (), w)"
  by (auto simp: action_execute_def is_closed_def split: option.splits)

lemma execute_cases:
  obtains (noop) "action_execute b s w = (Inr (), w)"
  | (returns) cs where
      "action_execute b s w = (Inr (), self_calls b cs (w\<lparr>trace := trace w @ [(b, s)]\<rparr>))"
      "\<exists>self. actions w b = Some self \<and> \<not> closed self \<and> fst (work self s) = cs"
  | (throws) cs err where
      "action_execute b s w =
         (Inl err, action_unsubscribe b (self_calls b cs (w\<lparr>trace := trace w @ [(b, s)]\<rparr>)))"
      "\<exists>self. actions w b = Some self \<and> \<not> closed self \<and> fst (work self s) = cs"
proof (cases "actions w b")
  case None
  then have "action_execute b s w = (Inr (), w)" by (simp add: action_execute_def)
  then show ?thesis by (rule noop)
next
  case (Some self)
  show ?thesis
  proof (cases "closed self")
    case True
    with Some have "action_execute b s w = (Inr (), w)" by (simp add: action_execute_def)
    then show ?thesis by (rule noop)
  next
    case False
    obtain cs out where wk: "work self s = (cs, out)" by (cases "work self s")
    show ?thesis
    proof (cases out)
      case None
      with execute_live [OF Some False wk] Some False wk show ?thesis
        by (intro returns [of cs]) auto
    next
      case (Some err)
      with execute_live [OF \<open>actions w b = Some self\<close> False wk] \<open>actions w b = Some self\<close> False wk
      show ?thesis
        by (intro throws [of err cs]) auto
    qed
  qed
qed

lemma execute_next_action [simp]: "next_action (snd (action_execute b s w)) = next_action w"
  by (cases rule: execute_cases [of b s w]) simp_all

lemma execute_works [simp]: "works (snd (action_execute b s w)) = works w"
  by (cases rule: execute_cases [of b s w]) simp_all


lemma execute_invocations:
  "invocations a (snd (action_execute b s w)) \<le> invocations a w + (if a = b then 1 else 0)"
  by (cases rule: execute_cases [of b s w]) (simp_all add: invocations_def)

lemma execute_invocations_other:
  "a \<noteq> b \<Longrightarrow> invocations a (snd (action_execute b s w)) = invocations a w"
  by (cases rule: execute_cases [of b s w]) (simp_all add: invocations_def)

lemma execute_pending_other:
  assumes "a \<noteq> b"
  shows "pending a (snd (action_execute b s w)) \<le> pending a w"
proof (cases rule: execute_cases [of b s w])
  case noop
  then show ?thesis by simp
next
  case (returns cs)
  have "pending a (self_calls b cs (w\<lparr>trace := trace w @ [(b, s)]\<rparr>)) \<le> pending a w"
    using self_calls_pending_other [OF assms, of cs "w\<lparr>trace := trace w @ [(b, s)]\<rparr>"]
    by (simp add: pending_def)
  with returns show ?thesis by simp
next
  case (throws cs err)
  let ?w1 = "self_calls b cs (w\<lparr>trace := trace w @ [(b, s)]\<rparr>)"
  have "pending a ?w1 \<le> pending a w"
    using self_calls_pending_other [OF assms, of cs "w\<lparr>trace := trace w @ [(b, s)]\<rparr>"]
    by (simp add: pending_def)
  with throws show ?thesis using unsubscribe_pending [of a b ?w1] by simp
qed


lemma execute_is_closed:
  assumes "is_closed a w"
  shows "is_closed a (snd (action_execute b s w))"
proof -
  have c0: "is_closed a (w\<lparr>trace := trace w @ [(b, s)]\<rparr>)"
    using assms by (simp add: is_closed_def)
  show ?thesis
  proof (cases rule: execute_cases [of b s w])
    case noop
    with assms show ?thesis by simp
  next
    case (returns cs)
    with self_calls_is_closed [OF c0, of b cs] show ?thesis by simp
  next
    case (throws cs err)
    with unsubscribe_is_closed [OF self_calls_is_closed [OF c0, of b cs], of b]
    show ?thesis by simp
  qed
qed


subsection \<open>What a fired callback changes\<close>

lemma run_callback_next_action [simp]: "next_action (snd (run_callback cb w)) = next_action w"
  by (cases cb) (simp_all add: run_callback_def)

lemma run_callback_pending_other:
  "cb_target cb \<noteq> a \<Longrightarrow> pending a (snd (run_callback cb w)) \<le> pending a w"
proof (cases cb)
  case (Call_schedule b s)
  assume "cb_target cb \<noteq> a"
  with Call_schedule show ?thesis
    using schedule_pending [of a b s None w] by (auto simp: run_callback_def)
next
  case (Call_execute b s)
  assume "cb_target cb \<noteq> a"
  with Call_execute show ?thesis
    using execute_pending_other [of a b s w] by (auto simp: run_callback_def)
qed

lemma run_callback_works [simp]: "works (snd (run_callback cb w)) = works w"
  by (cases cb) (simp_all add: run_callback_def)

lemma run_callback_invocations:
  "invocations a (snd (run_callback cb w)) \<le> invocations a w + (if cb_target cb = a then 1 else 0)"
proof (cases cb)
  case (Call_schedule b s)
  then show ?thesis by (simp add: run_callback_def invocations_def)
next
  case (Call_execute b s)
  then show ?thesis using execute_invocations [of a b s w] by (auto simp: run_callback_def)
qed

lemma run_callback_is_closed: "is_closed a w \<Longrightarrow> is_closed a (snd (run_callback cb w))"
  by (cases cb) (simp_all add: run_callback_def schedule_is_closed execute_is_closed)

lemma run_callback_closed_noop:
  "is_closed (cb_target cb) w \<Longrightarrow> run_callback cb w = (Inr (), w)"
  by (cases cb) (simp_all add: run_callback_def schedule_closed_noop execute_closed_noop)

lemma run_callback_invocations_other:
  "cb_target cb \<noteq> a \<Longrightarrow> invocations a (snd (run_callback cb w)) = invocations a w"
proof (cases cb)
  case (Call_schedule b s)
  then show ?thesis by (simp add: run_callback_def invocations_def)
next
  case (Call_execute b s)
  assume "cb_target cb \<noteq> a"
  with Call_execute show ?thesis by (simp add: run_callback_def execute_invocations_other)
qed


lemma run_callback_invocations_closed:
  "is_closed a w \<Longrightarrow> invocations a (snd (run_callback cb w)) = invocations a w"
  by (cases "cb_target cb = a")
     (simp_all add: run_callback_closed_noop run_callback_invocations_other)




lemma fire_timer_next_action [simp]: "next_action (snd (fire_timer t w)) = next_action w"
  by (simp add: fire_timer_def clearTimeout_def split: option.splits)

lemma fire_timer_works [simp]: "works (snd (fire_timer t w)) = works w"
  by (simp add: fire_timer_def clearTimeout_def split: option.splits)


lemma fire_render_next_action [simp]: "next_action (snd (fire_render w)) = next_action w"
  by (simp add: fire_render_def split: list.splits)

lemma fire_render_works [simp]: "works (snd (fire_render w)) = works w"
  by (simp add: fire_render_def split: list.splits)



lemma scheduler_schedule_next_action [simp]:
  "next_action (snd (scheduler_schedule sch wk d s w)) = Suc (next_action w)"
  by (simp add: scheduler_schedule_def new_AfterNextRenderAction_def Let_def)

lemma scheduler_schedule_count:
  "count a (snd (scheduler_schedule sch wk d s w))
     \<le> count a w + (if a = next_action w then 1 else 0)"
proof -
  let ?w1 = "snd (new_AfterNextRenderAction (scheduler_injector sch) wk w)"
  let ?d = "Some (case d of None \<Rightarrow> 0 | Some x \<Rightarrow> x)"
  have "pending a ?w1 = pending a w" and "trace ?w1 = trace w"
    by (simp_all add: new_AfterNextRenderAction_def pending_def)
  then show ?thesis
    using schedule_pending [of a "next_action w" s ?d ?w1]
    by (simp add: scheduler_schedule_def count_def invocations_def Let_def
        new_AfterNextRenderAction_def)
qed








subsection \<open>A closed action stays closed\<close>


lemma scheduler_schedule_trace [simp]:
  "trace (snd (scheduler_schedule sch wk d s w)) = trace w"
  by (simp add: scheduler_schedule_def new_AfterNextRenderAction_def Let_def)

lemma scheduler_schedule_is_closed:
  assumes "is_closed a w" and "a < next_action w"
  shows "is_closed a (snd (scheduler_schedule sch wk d s w))"
proof -
  let ?w1 = "snd (new_AfterNextRenderAction (scheduler_injector sch) wk w)"
  from assms have "is_closed a ?w1"
    by (simp add: new_AfterNextRenderAction_def is_closed_def)
  then show ?thesis
    by (simp add: scheduler_schedule_def Let_def schedule_is_closed new_AfterNextRenderAction_def)
qed

lemma closed_pending_callback:
  assumes "is_closed a w"
  shows "pending a (snd (run_callback cb w)) \<le> pending a w"
proof (cases "cb_target cb = a")
  case True
  with assms show ?thesis by (simp add: run_callback_closed_noop)
next
  case False
  then show ?thesis by (rule run_callback_pending_other)
qed

lemma closed_step:
  assumes c: "is_closed a w" and lt: "a < next_action w"
  shows "is_closed a (step ev w) \<and> a < next_action (step ev w)
         \<and> invocations a (step ev w) = invocations a w
         \<and> pending a (step ev w) \<le> pending a w"
proof (cases ev)
  case (Schedule sch wk d s)
  have "pending a (step ev w) + invocations a (step ev w) \<le> pending a w + invocations a w"
    using scheduler_schedule_count [of a sch wk d s w] lt Schedule by (simp add: count_def)
  moreover have "invocations a (step ev w) = invocations a w"
    using Schedule by (simp add: invocations_def)
  ultimately show ?thesis
    using Schedule scheduler_schedule_is_closed [OF c lt] lt by simp
next
  case (Timer t)
  show ?thesis
  proof (cases "find (\<lambda>e. fst e = t) (timers w)")
    case None
    with Timer c lt show ?thesis by (simp add: fire_timer_def)
  next
    case (Some e)
    let ?w1 = "clearTimeout t w"
    have c1: "is_closed a ?w1" using c by (simp add: is_closed_def clearTimeout_def)
    have i1: "invocations a ?w1 = invocations a w" by (simp add: invocations_def clearTimeout_def)
    have p1: "pending a ?w1 \<le> pending a w" by (rule pending_clearTimeout_le)
    show ?thesis
      using Timer Some lt run_callback_is_closed [OF c1, of "snd (snd e)"]
        run_callback_invocations_closed [OF c1, of "snd (snd e)"] i1 p1
        closed_pending_callback [OF c1, of "snd (snd e)"]
      by (simp add: fire_timer_def clearTimeout_def)
  qed
next
  case Render
  show ?thesis
  proof (cases "renders w")
    case Nil
    with Render c lt show ?thesis by (simp add: fire_render_def)
  next
    case (Cons r rest)
    let ?w1 = "w\<lparr>renders := rest\<rparr>"
    have c1: "is_closed a ?w1" using c by (simp add: is_closed_def)
    have i1: "invocations a ?w1 = invocations a w" by (simp add: invocations_def)
    have p1: "pending a ?w1 \<le> pending a w" using Cons by (simp add: pending_def)
    show ?thesis
      using Render Cons lt run_callback_is_closed [OF c1, of "fst r"]
        run_callback_invocations_closed [OF c1, of "fst r"] i1 p1
        closed_pending_callback [OF c1, of "fst r"]
      by (simp add: fire_render_def)
  qed
next
  case (Unsubscribe b)
  then show ?thesis
    using unsubscribe_is_closed [OF c, of b] unsubscribe_pending [of a b w] lt
    by (simp add: invocations_def)
next
  case (Execute b s)
  then show ?thesis
    using run_callback_is_closed [OF c, of "Call_execute b s"]
      run_callback_invocations_closed [OF c, of "Call_execute b s"]
      closed_pending_callback [OF c, of "Call_execute b s"] lt
    by (simp add: run_callback_def)
next
  case (Reschedule b s d)
  have "pending a (snd (action_schedule b s d w)) \<le> pending a w"
  proof (cases "b = a")
    case True
    with c show ?thesis by (simp add: schedule_closed_noop)
  next
    case False
    then show ?thesis using schedule_pending [of a b s d w] by simp
  qed
  with Reschedule show ?thesis
    using schedule_is_closed [OF c, of b s d] lt by (simp add: invocations_def)
qed

lemma closed_run:
  "is_closed a w \<Longrightarrow> a < next_action w \<Longrightarrow>
   is_closed a (run evs w) \<and> a < next_action (run evs w)
   \<and> invocations a (run evs w) = invocations a w
   \<and> pending a (run evs w) \<le> pending a w"
proof (induction evs arbitrary: w)
  case Nil
  then show ?case by simp
next
  case (Cons ev evs)
  from closed_step [OF Cons.prems, of ev]
  have s: "is_closed a (step ev w)" "a < next_action (step ev w)"
    "invocations a (step ev w) = invocations a w" "pending a (step ev w) \<le> pending a w"
    by simp_all
  from Cons.IH [OF s(1) s(2)] s(3) s(4) show ?case by simp
qed


subsection \<open>One render runs the callbacks in registration order\<close>










lemma execute_live_trace:
  "actions w a = Some self \<Longrightarrow> \<not> closed self \<Longrightarrow>
   trace (snd (action_execute a s w)) = trace w @ [(a, s)]"
  by (cases "work self s"; cases "snd (work self s)") (simp_all add: execute_live)

text \<open>
  The delayed path end to end: when the timer that \<^verbatim>\<open>schedule(state, d)\<close> armed
  fires, the action stands in the render queue as if scheduled with no delay.
\<close>

lemma find_append_none:
  "list_all (\<lambda>e. \<not> P e) xs \<Longrightarrow> find P (xs @ ys) = find P ys"
  by (induction xs) auto

lemma filter_all_kept: "list_all P xs \<Longrightarrow> filter P xs = xs"
  by (induction xs) auto

lemma timer_falls_through:
  assumes "actions w a = Some self" and "\<not> closed self" and "0 < d"
    and fresh: "list_all (\<lambda>e. fst e \<noteq> next_timer w) (timers w)"
  shows "renders (snd (fire_timer (next_timer w) (snd (action_schedule a s (Some d) w))))
           = renders w @ [(Call_execute a s, injector self)]
     \<and> timers (snd (fire_timer (next_timer w) (snd (action_schedule a s (Some d) w))))
           = timers w
     \<and> trace (snd (fire_timer (next_timer w) (snd (action_schedule a s (Some d) w))))
           = trace w"
proof -
  let ?n = "next_timer w"
  let ?w1 = "snd (action_schedule a s (Some d) w)"
  have w1: "?w1 = w\<lparr>timers := timers w @ [(?n, d, Call_schedule a s)], next_timer := Suc ?n,
                      actions := (actions w)(a \<mapsto> self\<lparr>timeoutId := Some ?n\<rparr>)\<rparr>"
    using assms(1-3) by (simp add: action_schedule_def setTimeout_def Let_def)
  have f: "find (\<lambda>e. fst e = ?n) (timers ?w1) = Some (?n, d, Call_schedule a s)"
    using find_append_none [OF fresh [simplified], of "[(?n, d, Call_schedule a s)]"]
    by (simp add: w1)
  have ft: "fire_timer ?n ?w1 = run_callback (Call_schedule a s) (clearTimeout ?n ?w1)"
    using f by (simp add: fire_timer_def)
  have w2: "clearTimeout ?n ?w1
      = w\<lparr>next_timer := Suc ?n,
           actions := (actions w)(a \<mapsto> self\<lparr>timeoutId := Some ?n\<rparr>)\<rparr>"
    using filter_all_kept [OF fresh] by (simp add: w1 clearTimeout_def)
  show ?thesis
    unfolding ft w2 using assms(2)
    by (simp add: run_callback_def action_schedule_def afterNextRender_def)
qed

section \<open>The claims\<close>




text \<open>
  Claim C2: cancellation is absorbing. After \<^verbatim>\<open>unsubscribe\<close> on an allocated action,
  and after any further events whatever (timers and render callbacks that fire, direct calls
  of \<^verbatim>\<open>execute\<close> and \<^verbatim>\<open>schedule\<close>, new tasks, more cancellations), the action is
  closed, its work has been called no more often than before the cancellation, no callback
  was added for it, \<^verbatim>\<open>execute\<close> returns leaving the world as it is, and
  \<^verbatim>\<open>schedule\<close> returns the action itself leaving the world as it is.
\<close>

theorem cancellation_absorbing:
  assumes "actions w a = Some self" and "a < next_action w"
  shows "is_closed a (run evs (action_unsubscribe a w))
     \<and> invocations a (run evs (action_unsubscribe a w)) = invocations a w
     \<and> pending a (run evs (action_unsubscribe a w)) \<le> pending a w
     \<and> action_execute a s (run evs (action_unsubscribe a w))
         = (Inr (), run evs (action_unsubscribe a w))
     \<and> action_schedule a s d (run evs (action_unsubscribe a w))
         = (a, run evs (action_unsubscribe a w))"
proof -
  let ?w0 = "action_unsubscribe a w"
  have c0: "is_closed a ?w0" using assms(1) by (rule unsubscribe_closes)
  have lt0: "a < next_action ?w0" using assms(2) by simp
  from closed_run [OF c0 lt0, of evs]
  have r: "is_closed a (run evs ?w0)" "invocations a (run evs ?w0) = invocations a ?w0"
    "pending a (run evs ?w0) \<le> pending a ?w0"
    by simp_all
  have "invocations a ?w0 = invocations a w" by (simp add: invocations_def)
  moreover have "pending a ?w0 \<le> pending a w" by (rule unsubscribe_pending)
  ultimately show ?thesis
    using r execute_closed_noop [OF r(1)] schedule_closed_noop [OF r(1)] by simp
qed

theorem cancellation_absorbing_witness:
  "actions (example_world work_returns 5) 0
     = Some \<lparr>injector = Some 1, work = work_returns, closed = False, timeoutId = Some 0\<rparr>
   \<and> 0 < next_action (example_world work_returns 5)
   \<and> is_closed 0 (run [Timer 0, Render, Execute 0 7, Reschedule 0 7 (Some 3)]
        (action_unsubscribe 0 (example_world work_returns 5)))
   \<and> invocations 0 (run [Timer 0, Render, Execute 0 7, Reschedule 0 7 (Some 3)]
        (action_unsubscribe 0 (example_world work_returns 5))) = 0
   \<and> action_execute 0 7 (run [Timer 0, Render, Execute 0 7, Reschedule 0 7 (Some 3)]
        (action_unsubscribe 0 (example_world work_returns 5)))
       = (Inr (), run [Timer 0, Render, Execute 0 7, Reschedule 0 7 (Some 3)]
            (action_unsubscribe 0 (example_world work_returns 5)))"
proof -
  have h1: "actions (example_world work_returns 5) 0
     = Some \<lparr>injector = Some 1, work = work_returns, closed = False, timeoutId = Some 0\<rparr>"
    by (simp add: model_defs)
  have h2: "0 < next_action (example_world work_returns 5)"
    by (simp add: model_defs)
  have i: "invocations 0 (example_world work_returns 5) = 0"
    by (simp add: model_defs)
  from cancellation_absorbing
         [OF h1 h2, of "[Timer 0, Render, Execute 0 7, Reschedule 0 7 (Some 3)]" 7 "Some 3"]
    h1 h2 i
  show ?thesis by simp
qed

text \<open>
  Claim C3: \<^verbatim>\<open>Scheduler.schedule(work, delay, state)\<close> never calls the work, whatever
  the delay. It allocates one action bound to the scheduler's injector and the work, hands
  \<open>state\<close> and the delay to that action's \<^verbatim>\<open>schedule\<close>, which registers exactly one
  callback (a timer or a render callback), and returns the new action.
\<close>

theorem scheduler_schedule_defers_work:
  "fst (scheduler_schedule sch wk d s w) = next_action w
   \<and> trace (snd (scheduler_schedule sch wk d s w)) = trace w
   \<and> next_action (snd (scheduler_schedule sch wk d s w)) = Suc (next_action w)
   \<and> actions (snd (scheduler_schedule sch wk d s w)) =
       (actions w)(next_action w \<mapsto>
          \<lparr>injector = scheduler_injector sch, work = wk, closed = False,
           timeoutId = (if 0 < (case d of None \<Rightarrow> 0 | Some x \<Rightarrow> x)
                        then Some (next_timer w) else None)\<rparr>)
   \<and> scheduler_schedule sch wk d s w =
       action_schedule (next_action w) s (Some (case d of None \<Rightarrow> 0 | Some x \<Rightarrow> x))
         (snd (new_AfterNextRenderAction (scheduler_injector sch) wk w))
   \<and> length (timers (snd (scheduler_schedule sch wk d s w)))
       + length (renders (snd (scheduler_schedule sch wk d s w)))
       = Suc (length (timers w) + length (renders w))"
  by (auto simp: scheduler_schedule_def new_AfterNextRenderAction_def action_schedule_def
      setTimeout_def afterNextRender_def Let_def split: option.splits)

text \<open>
  Claim C4: on an action that is not closed, \<^verbatim>\<open>schedule(state, delay)\<close> with a positive
  delay arms one timer of that delay whose callback calls \<^verbatim>\<open>schedule(state)\<close>, which is
  \<^verbatim>\<open>schedule(state, 0)\<close>; otherwise it registers one render callback under the action's
  injector, and that callback calls \<^verbatim>\<open>execute(state)\<close>. Nothing else changes but the
  recorded timer identifier.
\<close>

theorem action_schedule_registers:
  assumes "actions w a = Some self" and "\<not> closed self"
  shows "fst (action_schedule a s d w) = a
     \<and> trace (snd (action_schedule a s d w)) = trace w
     \<and> timers (snd (action_schedule a s d w)) =
         (if 0 < (case d of None \<Rightarrow> 0 | Some x \<Rightarrow> x)
          then timers w @ [(next_timer w, (case d of None \<Rightarrow> 0 | Some x \<Rightarrow> x), Call_schedule a s)]
          else timers w)
     \<and> renders (snd (action_schedule a s d w)) =
         (if 0 < (case d of None \<Rightarrow> 0 | Some x \<Rightarrow> x)
          then renders w
          else renders w @ [(Call_execute a s, injector self)])
     \<and> actions (snd (action_schedule a s d w)) =
         (if 0 < (case d of None \<Rightarrow> 0 | Some x \<Rightarrow> x)
          then (actions w)(a \<mapsto> self\<lparr>timeoutId := Some (next_timer w)\<rparr>)
          else actions w)
     \<and> run_callback (Call_schedule a s) w' = (Inr (), snd (action_schedule a s (Some 0) w'))
     \<and> run_callback (Call_execute a s) w' = action_execute a s w'"
  using assms
  by (auto simp: action_schedule_def setTimeout_def afterNextRender_def Let_def run_callback_def
      split: option.splits)

theorem action_schedule_registers_witness:
  "actions (example_world work_returns 0) 0
     = Some \<lparr>injector = Some 1, work = work_returns, closed = False, timeoutId = None\<rparr>
   \<and> \<not> closed \<lparr>injector = Some 1, work = work_returns, closed = False, timeoutId = None\<rparr>
   \<and> timers (snd (action_schedule 0 8 (Some 50) (example_world work_returns 0)))
       = [(0, 50, Call_schedule 0 8)]
   \<and> renders (snd (action_schedule 0 8 (Some 50) (example_world work_returns 0)))
       = [(Call_execute 0 7, Some 1)]
   \<and> timers (snd (action_schedule 0 8 (Some (- 3)) (example_world work_returns 0))) = []
   \<and> renders (snd (action_schedule 0 8 (Some (- 3)) (example_world work_returns 0)))
       = [(Call_execute 0 7, Some 1), (Call_execute 0 8, Some 1)]"
proof -
  have h1: "actions (example_world work_returns 0) 0
     = Some \<lparr>injector = Some 1, work = work_returns, closed = False, timeoutId = None\<rparr>"
    by (simp add: model_defs)
  have h2: "\<not> closed \<lparr>injector = Some 1, work = work_returns, closed = False, timeoutId = None\<rparr>"
    by simp
  have t: "timers (example_world work_returns 0) = []"
    "renders (example_world work_returns 0) = [(Call_execute 0 7, Some 1)]"
    "next_timer (example_world work_returns 0) = 0"
    by (simp_all add: model_defs)
  from action_schedule_registers [OF h1 h2, of 8 "Some 50" initial_world]
    action_schedule_registers [OF h1 h2, of 8 "Some (- 3)" initial_world] h1 t
  show ?thesis by (elim conjE) simp
qed

text \<open>
  Claim C5, as stated: when the work throws, any armed timer of the task is cleared. The
  action records one timer identifier: \<^verbatim>\<open>schedule\<close> with a positive delay overwrites
  \<^verbatim>\<open>timeoutId\<close>, and \<^verbatim>\<open>unsubscribe\<close> clears the identifier it finds there. A task
  scheduled with delay 50 and scheduled again with delay 60 has two timers armed; after its
  work has thrown, the first of them is still pending.
\<close>

theorem execute_work_error_counterexample:
  "fst (action_execute 0 7
          (run [Schedule example_scheduler work_throws (Some 50) 7, Reschedule 0 7 (Some 60)]
             (initial_world :: (nat, string, nat) world))) = Inl ''Test Error''
   \<and> timers (snd (action_execute 0 7
          (run [Schedule example_scheduler work_throws (Some 50) 7, Reschedule 0 7 (Some 60)]
             (initial_world :: (nat, string, nat) world)))) = [(0, 50, Call_schedule 0 7)]
   \<and> pending 0 (snd (action_execute 0 7
          (run [Schedule example_scheduler work_throws (Some 50) 7, Reschedule 0 7 (Some 60)]
             (initial_world :: (nat, string, nat) world)))) = 1"
  by (simp add: model_defs)

text \<open>
  Claim C5, amended: when the work throws during \<^verbatim>\<open>execute(state)\<close> on an action that
  is not closed, \<^verbatim>\<open>execute\<close> throws the same error after \<^verbatim>\<open>unsubscribe\<close>: in the
  world it leaves the work has been called once, the action is closed with
  \<^verbatim>\<open>timeoutId\<close> reset, and the timer that \<^verbatim>\<open>timeoutId\<close> recorded when the work threw
  is no longer pending. The work is not called again: a further \<^verbatim>\<open>execute\<close> returns
  and changes nothing. The calls the work made on its action before it threw have taken
  effect first.
\<close>

theorem execute_work_error:
  assumes "actions w a = Some self" and "\<not> closed self" and "work self s = (calls, Some err)"
  shows "action_execute a s w =
       (Inl err, action_unsubscribe a (self_calls a calls (w\<lparr>trace := trace w @ [(a, s)]\<rparr>)))
     \<and> trace (snd (action_execute a s w)) = trace w @ [(a, s)]
     \<and> is_closed a (snd (action_execute a s w))
     \<and> map_option timeoutId (actions (snd (action_execute a s w)) a) = Some None
     \<and> timers (snd (action_execute a s w)) =
         (case actions (self_calls a calls (w\<lparr>trace := trace w @ [(a, s)]\<rparr>)) a of
            None \<Rightarrow> timers (self_calls a calls (w\<lparr>trace := trace w @ [(a, s)]\<rparr>))
          | Some self1 \<Rightarrow>
              (case timeoutId self1 of
                 None \<Rightarrow> timers (self_calls a calls (w\<lparr>trace := trace w @ [(a, s)]\<rparr>))
               | Some t \<Rightarrow>
                   filter (\<lambda>e. fst e \<noteq> t)
                     (timers (self_calls a calls (w\<lparr>trace := trace w @ [(a, s)]\<rparr>)))))
     \<and> renders (snd (action_execute a s w))
         = renders (self_calls a calls (w\<lparr>trace := trace w @ [(a, s)]\<rparr>))
     \<and> action_execute a s' (snd (action_execute a s w)) = (Inr (), snd (action_execute a s w))"
proof -
  let ?w0 = "w\<lparr>trace := trace w @ [(a, s)]\<rparr>"
  let ?w1 = "self_calls a calls ?w0"
  have ex: "action_execute a s w = (Inl err, action_unsubscribe a ?w1)"
    using execute_live [OF assms] by simp
  have "actions ?w0 a = Some self" using assms(1) by simp
  from self_calls_action [OF this, of calls] assms(2)
  obtain self1 where s1: "actions ?w1 a = Some self1"
    and tidy: "closed self1 \<longrightarrow> timeoutId self1 = None"
    by auto
  have c: "is_closed a (action_unsubscribe a ?w1)" using s1 by (rule unsubscribe_closes)
  have tid: "map_option timeoutId (actions (action_unsubscribe a ?w1) a) = Some None"
    using s1 tidy
    by (auto simp: action_unsubscribe_def Subscription_unsubscribe_def clearTimeout_def
        split: option.splits)
  have tm: "timers (action_unsubscribe a ?w1) =
      (case timeoutId self1 of
         None \<Rightarrow> timers ?w1
       | Some t \<Rightarrow> filter (\<lambda>e. fst e \<noteq> t) (timers ?w1))"
    using s1 tidy
    by (auto simp: action_unsubscribe_def clearTimeout_def split: option.splits)
  have rn: "renders (action_unsubscribe a ?w1) = renders ?w1"
    by (auto simp: action_unsubscribe_def clearTimeout_def split: option.splits)
  have again: "action_execute a s' (action_unsubscribe a ?w1) = (Inr (), action_unsubscribe a ?w1)"
    using c by (rule execute_closed_noop)
  show ?thesis
    unfolding ex using c tid tm rn again s1 by simp
qed

theorem execute_work_error_witness:
  "actions (example_world work_throws 50) 0
     = Some \<lparr>injector = Some 1, work = work_throws, closed = False, timeoutId = Some 0\<rparr>
   \<and> \<not> closed \<lparr>injector = Some 1, work = work_throws, closed = False, timeoutId = Some 0\<rparr>
   \<and> work \<lparr>injector = Some 1, work = work_throws, closed = False, timeoutId = Some 0\<rparr> 7
       = ([], Some ''Test Error'')
   \<and> timers (example_world work_throws 50) = [(0, 50, Call_schedule 0 7)]
   \<and> fst (action_execute 0 7 (example_world work_throws 50)) = Inl ''Test Error''
   \<and> trace (snd (action_execute 0 7 (example_world work_throws 50))) = [(0, 7)]
   \<and> is_closed 0 (snd (action_execute 0 7 (example_world work_throws 50)))
   \<and> timers (snd (action_execute 0 7 (example_world work_throws 50))) = []"
proof -
  have h1: "actions (example_world work_throws 50) 0
     = Some \<lparr>injector = Some 1, work = work_throws, closed = False, timeoutId = Some 0\<rparr>"
    by (simp add: model_defs)
  have h2: "\<not> closed \<lparr>injector = Some 1, work = work_throws, closed = False, timeoutId = Some 0\<rparr>"
    by simp
  have h3: "work \<lparr>injector = Some 1, work = work_throws, closed = False, timeoutId = Some 0\<rparr> 7
       = ([], Some ''Test Error'')"
    by (simp add: work_throws_def)
  have t: "trace (example_world work_throws 50) = []"
    "timers (example_world work_throws 50) = [(0, 50, Call_schedule 0 7)]"
    by (simp_all add: model_defs)
  from execute_work_error [OF h1 h2 h3, of 7] h1 h3 t
  show ?thesis by (elim conjE) simp
qed

text \<open>
  Claim C6: \<^verbatim>\<open>unsubscribe\<close> is idempotent. Called twice or more often, on any action
  in any world, it leaves the world that one call leaves.
\<close>

theorem unsubscribe_idempotent: "(action_unsubscribe a ^^ Suc n) w = action_unsubscribe a w"
  by (induction n) (simp_all add: unsubscribe_twice)

text \<open>
  Claim C7: with no injector supplied (no argument, or options without an injector) and no
  injection context active, the constructor fails, so no scheduler exists to schedule on.
  With an injector supplied, as the argument or in the options, it succeeds whether or not
  an injection context is active.
\<close>

theorem constructor_configuration_error:
  "new_AfterNextRenderScheduler None No_argument = Inl No_injection_context
   \<and> new_AfterNextRenderScheduler None (Options_argument \<lparr>options_injector = None, options_now = n\<rparr>)
       = Inl No_injection_context
   \<and> (\<exists>sch. new_AfterNextRenderScheduler ambient (Injector_argument i) = Inr sch)
   \<and> (\<exists>sch. new_AfterNextRenderScheduler ambient
         (Options_argument \<lparr>options_injector = Some i, options_now = n\<rparr>) = Inr sch)"
  by (simp add: new_AfterNextRenderScheduler_def optional_now_def optional_injector_def inject_def)

text \<open>
  Claim C8: an \<^verbatim>\<open>Injector\<close> argument gives the clock \<^verbatim>\<open>Date.now\<close> and that
  injector. Otherwise the clock is the supplied one, or \<^verbatim>\<open>Date.now\<close>, and the injector
  is the one of the options, or the injector of the active injection context.
\<close>

theorem constructor_resolution:
  "new_AfterNextRenderScheduler ambient (Injector_argument i)
     = Inr \<lparr>now = Date_now, scheduler_injector = Some i\<rparr>
   \<and> new_AfterNextRenderScheduler ambient
        (Options_argument \<lparr>options_injector = Some i, options_now = n\<rparr>)
     = Inr \<lparr>now = (case n of None \<Rightarrow> Date_now | Some f \<Rightarrow> Supplied f),
            scheduler_injector = Some i\<rparr>
   \<and> new_AfterNextRenderScheduler (Some j)
        (Options_argument \<lparr>options_injector = None, options_now = n\<rparr>)
     = Inr \<lparr>now = (case n of None \<Rightarrow> Date_now | Some f \<Rightarrow> Supplied f),
            scheduler_injector = Some j\<rparr>
   \<and> new_AfterNextRenderScheduler (Some j) No_argument
     = Inr \<lparr>now = Date_now, scheduler_injector = Some j\<rparr>"
  by (simp add: new_AfterNextRenderScheduler_def optional_now_def optional_injector_def inject_def split: option.splits)



text \<open>
  Claim C10, as stated: after \<^verbatim>\<open>execute(state)\<close> has run the work to successful
  completion the action is not closed and a later \<^verbatim>\<open>schedule\<close> registers a callback.
  The work runs with \<^verbatim>\<open>this\<close> bound to the action and may call
  \<^verbatim>\<open>this.unsubscribe()\<close> before it returns, as the work of \<^verbatim>\<open>observeOn\<close> does.
  Then \<^verbatim>\<open>execute\<close> returns, the action is closed, and a later \<^verbatim>\<open>schedule\<close>
  registers nothing.
\<close>

theorem execute_success_frame_counterexample:
  "\<not> is_closed 0 (example_world work_unsubscribes 0)
   \<and> fst (action_execute 0 7 (example_world work_unsubscribes 0)) = Inr ()
   \<and> is_closed 0 (snd (action_execute 0 7 (example_world work_unsubscribes 0)))
   \<and> renders (snd (action_schedule 0 8 None
         (snd (action_execute 0 7 (example_world work_unsubscribes 0)))))
       = renders (snd (action_execute 0 7 (example_world work_unsubscribes 0)))"
  by (simp add: model_defs)

text \<open>
  Claim C10, amended: a call of \<^verbatim>\<open>execute(state)\<close> whose work returns records the
  call and otherwise leaves the world as the work's own calls on its action leave it;
  \<^verbatim>\<open>execute\<close> itself changes nothing. The action is closed afterwards exactly when
  the work called \<^verbatim>\<open>this.unsubscribe()\<close>. When it did not, a later
  \<^verbatim>\<open>schedule\<close> registers a new render callback and a second \<^verbatim>\<open>execute\<close> calls the
  work again; when it did, a later \<^verbatim>\<open>schedule\<close> registers nothing and a second
  \<^verbatim>\<open>execute\<close> does not call the work.
\<close>

theorem execute_success_frame:
  assumes "actions w a = Some self" and "\<not> closed self" and "work self s = (calls, None)"
  shows "action_execute a s w =
       (Inr (), self_calls a calls (w\<lparr>trace := trace w @ [(a, s)]\<rparr>))
     \<and> trace (snd (action_execute a s w)) = trace w @ [(a, s)]
     \<and> is_closed a (snd (action_execute a s w)) = (This_unsubscribe \<in> set calls)
     \<and> renders (snd (action_schedule a s' None (snd (action_execute a s w)))) =
         (if This_unsubscribe \<in> set calls
          then renders (snd (action_execute a s w))
          else renders (snd (action_execute a s w)) @ [(Call_execute a s', injector self)])
     \<and> invocations a (snd (action_execute a s (snd (action_execute a s w)))) =
         (if This_unsubscribe \<in> set calls
          then invocations a w + 1
          else invocations a w + 2)"
proof -
  let ?w0 = "w\<lparr>trace := trace w @ [(a, s)]\<rparr>"
  let ?w1 = "self_calls a calls ?w0"
  have ex: "action_execute a s w = (Inr (), ?w1)"
    using execute_live [OF assms] by simp
  have "actions ?w0 a = Some self" using assms(1) by simp
  from self_calls_action [OF this, of calls] assms(2)
  obtain self1 where s1: "actions ?w1 a = Some self1"
    and inj: "injector self1 = injector self" and wk: "work self1 = work self"
    and cl: "closed self1 = (This_unsubscribe \<in> set calls)"
    by auto
  have i1: "invocations a ?w1 = invocations a w + 1"
    by (simp add: invocations_def)
  have c: "is_closed a ?w1 = (This_unsubscribe \<in> set calls)"
    using s1 cl by (simp add: is_closed_def)
  have r: "renders (snd (action_schedule a s' None ?w1)) =
      (if This_unsubscribe \<in> set calls then renders ?w1
       else renders ?w1 @ [(Call_execute a s', injector self)])"
    using s1 cl inj by (simp add: action_schedule_def afterNextRender_def)
  have i2: "invocations a (snd (action_execute a s ?w1)) =
      (if This_unsubscribe \<in> set calls then invocations a w + 1 else invocations a w + 2)"
  proof (cases "This_unsubscribe \<in> set calls")
    case True
    with c have "action_execute a s ?w1 = (Inr (), ?w1)" by (simp add: execute_closed_noop)
    with True i1 show ?thesis by simp
  next
    case False
    with cl have "\<not> closed self1" by simp
    from execute_live_trace [OF s1 this, of s] i1 False show ?thesis
      by (simp add: invocations_def)
  qed
  show ?thesis unfolding ex using c r i2 by simp
qed

theorem execute_success_frame_witness:
  "actions (example_world work_returns 0) 0
     = Some \<lparr>injector = Some 1, work = work_returns, closed = False, timeoutId = None\<rparr>
   \<and> \<not> closed \<lparr>injector = Some 1, work = work_returns, closed = False, timeoutId = None\<rparr>
   \<and> work \<lparr>injector = Some 1, work = work_returns, closed = False, timeoutId = None\<rparr> 7
       = ([], None)
   \<and> \<not> is_closed 0 (snd (action_execute 0 7 (example_world work_returns 0)))
   \<and> invocations 0 (snd (action_execute 0 7 (snd (action_execute 0 7
         (example_world work_returns 0))))) = 2
   \<and> actions (example_world work_unsubscribes 0) 0
     = Some \<lparr>injector = Some 1, work = work_unsubscribes, closed = False, timeoutId = None\<rparr>
   \<and> work \<lparr>injector = Some 1, work = work_unsubscribes, closed = False, timeoutId = None\<rparr> 7
       = ([This_unsubscribe], None)
   \<and> is_closed 0 (snd (action_execute 0 7 (example_world work_unsubscribes 0)))
   \<and> invocations 0 (snd (action_execute 0 7 (snd (action_execute 0 7
         (example_world work_unsubscribes 0))))) = 1"
proof -
  have h1: "actions (example_world work_returns 0) 0
     = Some \<lparr>injector = Some 1, work = work_returns, closed = False, timeoutId = None\<rparr>"
    by (simp add: model_defs)
  have h2: "\<not> closed \<lparr>injector = Some 1, work = work_returns, closed = False, timeoutId = None\<rparr>"
    by simp
  have h3: "work \<lparr>injector = Some 1, work = work_returns, closed = False, timeoutId = None\<rparr> 7
       = ([], None)"
    by (simp add: work_returns_def)
  have i: "invocations 0 (example_world work_returns 0) = 0"
    by (simp add: model_defs)
  have k1: "actions (example_world work_unsubscribes 0) 0
     = Some \<lparr>injector = Some 1, work = work_unsubscribes, closed = False, timeoutId = None\<rparr>"
    by (simp add: model_defs)
  have k2: "\<not> closed \<lparr>injector = Some 1, work = work_unsubscribes, closed = False,
      timeoutId = None\<rparr>"
    by simp
  have k3: "work \<lparr>injector = Some 1, work = work_unsubscribes, closed = False, timeoutId = None\<rparr> 7
       = ([This_unsubscribe], None)"
    by (simp add: work_unsubscribes_def)
  have j: "invocations 0 (example_world work_unsubscribes 0) = 0"
    by (simp add: model_defs)
  from execute_success_frame [OF h1 h2 h3, of 7] execute_success_frame [OF k1 k2 k3, of 7]
    h1 h3 i k1 k3 j
  show ?thesis by (elim conjE) simp
qed

end
